theory Spec2Isabelle
  imports Main "HOL-Library.Word"
begin

section \<open>Conventions\<close>

text \<open>
  The two programs verified here are \<^verbatim>\<open>src/move_constructors.cpp\<close> (class
  \<^verbatim>\<open>Person\<close>) and \<^verbatim>\<open>src/range_based_for.cpp\<close> (struct \<^verbatim>\<open>Node\<close>, class
  \<^verbatim>\<open>DLL\<close> and its nested \<^verbatim>\<open>DLLIterator\<close>).

  The data members of the C++ classes end in an underscore (\<^verbatim>\<open>age_\<close>, \<^verbatim>\<open>next_\<close>),
  a form of name that Isabelle keeps for its internal variables. A member \<^verbatim>\<open>x_\<close> is
  therefore written \<open>m_x\<close> below; every other name is the one of the source.

  Objects that the code reaches through references or pointers live in explicit
  stores (maps from addresses to object states), so that two references to the same
  object are two equal addresses. Undefined behaviour of C++ (a dangling reference, a
  null or dangling pointer dereference, a double \<^verbatim>\<open>delete\<close>) and a failing \<^verbatim>\<open>new\<close>
  are values of the type \<open>error\<close>; a function that can meet one returns
  \<open>error + 'a\<close>. The text written to \<^verbatim>\<open>std::cout\<close> by the move operations is
  not modelled.
\<close>

datatype error =
    DanglingRef       \<comment> \<open>a reference to an object that does not exist\<close>
  | StorageInUse      \<comment> \<open>construction of an object where another one lives\<close>
  | BadAlloc          \<comment> \<open>\<^verbatim>\<open>new\<close> throws \<^verbatim>\<open>std::bad_alloc\<close>\<close>
  | NullDeref         \<comment> \<open>\<^verbatim>\<open>p->f\<close> with \<^verbatim>\<open>p == nullptr\<close>\<close>
  | DanglingPointer   \<comment> \<open>\<^verbatim>\<open>p->f\<close> or \<^verbatim>\<open>delete p\<close> with \<^verbatim>\<open>p\<close> not (or no longer) allocated\<close>

section \<open>\<^verbatim>\<open>move_constructors.cpp\<close>: class \<^verbatim>\<open>Person\<close>\<close>

type_synonym uint32_t = "32 word"

record Person =
  m_age :: uint32_t
  m_nicknames :: "string list"
  m_valid :: bool

text \<open>A \<^verbatim>\<open>Person&\<close> or \<^verbatim>\<open>Person&&\<close> is the address of a \<^verbatim>\<open>Person\<close> object.\<close>

type_synonym pref = nat
type_synonym pstore = "pref \<rightharpoonup> Person"

text \<open>
  \<^verbatim>\<open>std::vector\<close> is library code. Its move constructor leaves the source empty (the
  standard guarantees it). Its move assignment leaves the source in a state the
  standard calls valid but unspecified, and so does a move assignment of a vector to
  itself; both are parameters of the model, as functions of the former contents.
\<close>

record vector_impl =
  moved_from :: "string list \<Rightarrow> string list"
  self_moved :: "string list \<Rightarrow> string list"

text \<open>
  Two instances: \<open>emptying_impl\<close> behaves as libstdc++ and libc++ do (the buffer is
  handed over or released in both cases), \<open>guarded_impl\<close> as a library whose move
  assignment returns at once when source and target are the same vector.
\<close>

definition emptying_impl :: vector_impl where
  "emptying_impl = \<lparr>moved_from = (\<lambda>_. []), self_moved = (\<lambda>_. [])\<rparr>"

definition guarded_impl :: vector_impl where
  "guarded_impl = \<lparr>moved_from = (\<lambda>_. []), self_moved = (\<lambda>v. v)\<rparr>"

text \<open>Update of the object at an address, where there is one.\<close>

definition upd :: "pref \<Rightarrow> (Person \<Rightarrow> Person) \<Rightarrow> pstore \<Rightarrow> pstore" where
  "upd r f s = (case s r of None \<Rightarrow> s | Some p \<Rightarrow> s(r \<mapsto> f p))"

text \<open>\<^verbatim>\<open>Person() : age_(0), nicknames_({}), valid_(true) {}\<close>, at the storage \<open>this\<close>.\<close>

definition Person_default :: "pref \<Rightarrow> pstore \<Rightarrow> error + pstore" where
  "Person_default this s =
     (if s this \<noteq> None then Inl StorageInUse
      else Inr (s(this \<mapsto> \<lparr>m_age = 0, m_nicknames = [], m_valid = True\<rparr>)))"

text \<open>
  \<^verbatim>\<open>Person(uint32_t age, std::vector<std::string> &&nicknames)\<close>: the vector argument
  is a temporary of the caller, given here by its contents.
\<close>

definition Person_init :: "pref \<Rightarrow> uint32_t \<Rightarrow> string list \<Rightarrow> pstore \<Rightarrow> error + pstore" where
  "Person_init this age nicknames s =
     (if s this \<noteq> None then Inl StorageInUse
      else Inr (s(this \<mapsto> \<lparr>m_age = age, m_nicknames = nicknames, m_valid = True\<rparr>)))"

text \<open>
  \<^verbatim>\<open>Person(Person &&person)\<close>: the member initialisers, then the body
  \<^verbatim>\<open>person.valid_ = false\<close>.
\<close>

definition Person_move :: "pref \<Rightarrow> pref \<Rightarrow> pstore \<Rightarrow> error + pstore" where
  "Person_move this person s =
     (if s this \<noteq> None then Inl StorageInUse
      else case s person of
        None \<Rightarrow> Inl DanglingRef
      | Some p \<Rightarrow>
          let s1 = s(this \<mapsto> \<lparr>m_age = m_age p, m_nicknames = m_nicknames p, m_valid = True\<rparr>);
              s2 = upd person (\<lambda>q. q\<lparr>m_nicknames := []\<rparr>) s1;
              s3 = upd person (\<lambda>q. q\<lparr>m_valid := False\<rparr>) s2
          in Inr s3)"

text \<open>
  \<^verbatim>\<open>nicknames_ = std::move(other.nicknames_)\<close>: the two vectors are the same object
  exactly when the two persons are.
\<close>

definition vector_move_assign :: "vector_impl \<Rightarrow> pref \<Rightarrow> pref \<Rightarrow> pstore \<Rightarrow> pstore" where
  "vector_move_assign impl this other s =
     (if this = other then upd this (\<lambda>q. q\<lparr>m_nicknames := self_moved impl (m_nicknames q)\<rparr>) s
      else case s other of
        None \<Rightarrow> s
      | Some p \<Rightarrow>
          upd other (\<lambda>q. q\<lparr>m_nicknames := moved_from impl (m_nicknames q)\<rparr>)
            (upd this (\<lambda>q. q\<lparr>m_nicknames := m_nicknames p\<rparr>) s))"

text \<open>
  \<^verbatim>\<open>Person &operator=(Person &&other)\<close>: four statements in the order of the source,
  each on the store the one before left; the result is \<^verbatim>\<open>*this\<close>.
\<close>

definition Person_assign :: "vector_impl \<Rightarrow> pref \<Rightarrow> pref \<Rightarrow> pstore \<Rightarrow> error + pref \<times> pstore" where
  "Person_assign impl this other s =
     (case s this of
        None \<Rightarrow> Inl DanglingRef
      | Some _ \<Rightarrow>
         (case s other of
            None \<Rightarrow> Inl DanglingRef
          | Some p \<Rightarrow>
              let s1 = upd this (\<lambda>q. q\<lparr>m_age := m_age p\<rparr>) s;
                  s2 = vector_move_assign impl this other s1;
                  s3 = upd this (\<lambda>q. q\<lparr>m_valid := True\<rparr>) s2;
                  s4 = upd other (\<lambda>q. q\<lparr>m_valid := False\<rparr>) s3
              in Inr (this, s4)))"

text \<open>\<^verbatim>\<open>uint32_t GetAge()\<close> and \<^verbatim>\<open>void PrintValid()\<close>, the latter as the line it prints.\<close>

definition GetAge :: "Person \<Rightarrow> uint32_t" where
  "GetAge p = m_age p"

definition PrintValid :: "Person \<Rightarrow> string" where
  "PrintValid p = (if m_valid p then ''Object is valid.'' else ''Object is invalid.'')"

text \<open>The persons of \<^verbatim>\<open>main\<close>: \<^verbatim>\<open>andy\<close> at address 0 and \<^verbatim>\<open>andy1\<close> at address 1.\<close>

definition andy :: Person where
  "andy = \<lparr>m_age = 15445, m_nicknames = [''andy'', ''pavlo''], m_valid = True\<rparr>"

definition main_store :: pstore where
  "main_store = [0 \<mapsto> andy, 1 \<mapsto> \<lparr>m_age = 0, m_nicknames = [], m_valid = True\<rparr>]"

text \<open>The store of \<^verbatim>\<open>main\<close> after \<^verbatim>\<open>andy\<close> was moved from: its flag is false.\<close>

definition moved_store :: pstore where
  "moved_store = main_store(0 \<mapsto> andy\<lparr>m_valid := False\<rparr>)"

section \<open>\<^verbatim>\<open>range_based_for.cpp\<close>: \<^verbatim>\<open>Node\<close>, \<^verbatim>\<open>DLL\<close> and \<^verbatim>\<open>DLLIterator\<close>\<close>

text \<open>
  A \<^verbatim>\<open>Node *\<close> is a 64-bit address and \<^verbatim>\<open>nullptr\<close> is the address 0;
  \<^verbatim>\<open>size_t\<close> is an unsigned 64-bit integer, whose \<open>+\<close> wraps around; an
  \<^verbatim>\<open>int\<close> is a 32-bit word (the code only stores and reads the values). The
  heap maps the addresses of the live nodes to their states.
\<close>

type_synonym addr = "64 word"
type_synonym size_t = "64 word"
type_synonym cint = "32 word"

definition nullptr :: addr where
  "nullptr = 0"

record Node =
  m_next :: addr
  m_prev :: addr
  m_value :: cint

type_synonym heap = "addr \<rightharpoonup> Node"

record DLL =
  m_head :: addr
  m_size :: size_t

record DLLIterator =
  m_curr :: addr

text \<open>
  A \<^verbatim>\<open>DLLIterator&\<close> (the \<^verbatim>\<open>this\<close> of a member function, and the reference that
  \<^verbatim>\<open>operator++\<close> and \<^verbatim>\<open>operator+\<close> return) is the address of an iterator object
  in a store of its own.
\<close>

type_synonym iref = nat
type_synonym istore = "iref \<rightharpoonup> DLLIterator"

text \<open>
  \<^verbatim>\<open>p->f\<close>, read and written: undefined behaviour when \<open>p\<close> is null or does not
  point to a live node.
\<close>

definition load :: "heap \<Rightarrow> addr \<Rightarrow> error + Node" where
  "load h p =
     (if p = nullptr then Inl NullDeref
      else case h p of None \<Rightarrow> Inl DanglingPointer | Some n \<Rightarrow> Inr n)"

definition modify :: "heap \<Rightarrow> addr \<Rightarrow> (Node \<Rightarrow> Node) \<Rightarrow> error + heap" where
  "modify h p f = (case load h p of Inl e \<Rightarrow> Inl e | Inr n \<Rightarrow> Inr (h(p \<mapsto> f n)))"

text \<open>
  \<^verbatim>\<open>new Node(val)\<close>, with \<^verbatim>\<open>Node(int val) : next_(nullptr), prev_(nullptr),
  value_(val) {}\<close>. Which address \<^verbatim>\<open>new\<close> returns is the allocator's choice and an
  input of the model (\<open>a\<close>). An allocator only hands out storage that is not null and
  not in use; any other \<open>a\<close> stands for an allocator with nothing to give, and
  \<^verbatim>\<open>new\<close> throws. Since addresses are 64-bit words, storage is finite.
\<close>

definition new_Node :: "addr \<Rightarrow> cint \<Rightarrow> heap \<Rightarrow> error + heap" where
  "new_Node a val h =
     (if a = nullptr \<or> h a \<noteq> None then Inl BadAlloc
      else Inr (h(a \<mapsto> \<lparr>m_next = nullptr, m_prev = nullptr, m_value = val\<rparr>)))"

text \<open>
  \<^verbatim>\<open>delete p\<close>: nothing for a null pointer, undefined behaviour for a node that is
  not live (released before).
\<close>

definition delete_Node :: "addr \<Rightarrow> heap \<Rightarrow> error + heap" where
  "delete_Node p h =
     (if p = nullptr then Inr h
      else case h p of None \<Rightarrow> Inl DanglingPointer | Some _ \<Rightarrow> Inr (h(p := None)))"

text \<open>\<^verbatim>\<open>DLL() : head_(nullptr), size_(0) {}\<close>\<close>

definition DLL_new :: DLL where
  "DLL_new = \<lparr>m_head = nullptr, m_size = 0\<rparr>"

text \<open>
  The loop of \<^verbatim>\<open>~DLL()\<close>: it reads \<^verbatim>\<open>current->next_\<close>, then deletes \<^verbatim>\<open>current\<close>.
  The third argument is not in the source: it records the released addresses in
  the order of release, so that a property can say what was released and how often.
  Each iteration releases a live node or stops with an error, so the loop ends.
\<close>

function dtor_loop :: "heap \<Rightarrow> addr \<Rightarrow> addr list \<Rightarrow> error + heap \<times> addr list" where
  "dtor_loop h current freed =
     (if current \<noteq> nullptr then
        (case load h current of
           Inl e \<Rightarrow> Inl e
         | Inr n \<Rightarrow>
            (case delete_Node current h of
               Inl e \<Rightarrow> Inl e
             | Inr h' \<Rightarrow> dtor_loop h' (m_next n) (freed @ [current])))
      else Inr (h, freed))"
  by pat_completeness auto
termination
proof (relation "measure (\<lambda>(h, current, freed). card (dom h))")
  show "wf (measure (\<lambda>(h, current, freed). card (dom h)))"
    by simp
next
  fix h :: heap and current :: addr and freed :: "addr list" and n h'
  assume "current \<noteq> nullptr" and "load h current = Inr n"
    and del: "delete_Node current h = Inr h'"
  then have "current \<in> dom h" and "h' = h(current := None)"
    by (auto simp: load_def delete_Node_def split: option.splits)
  then have "card (dom h') < card (dom h)"
    using card_Diff1_less [of "dom h" current] by simp
  then show "((h', m_next n, freed @ [current]), (h, current, freed))
      \<in> measure (\<lambda>(h, current, freed). card (dom h))"
    by simp
qed

text \<open>\<^verbatim>\<open>~DLL()\<close>: the loop from \<^verbatim>\<open>head_\<close>, then \<^verbatim>\<open>head_ = nullptr\<close>.\<close>

fun DLL_dtor :: "heap \<times> DLL \<Rightarrow> error + heap \<times> DLL \<times> addr list" where
  "DLL_dtor (h, d) =
     (case dtor_loop h (m_head d) [] of
        Inl e \<Rightarrow> Inl e
      | Inr (h', freed) \<Rightarrow> Inr (h', d\<lparr>m_head := nullptr\<rparr>, freed))"

text \<open>
  \<^verbatim>\<open>DLLIterator &operator++()\<close>: \<^verbatim>\<open>curr_ = curr_->next_; return *this;\<close>. The
  result is the reference \<open>this\<close> and the store with the object at \<open>this\<close> updated.
\<close>

definition operator_inc :: "heap \<Rightarrow> iref \<Rightarrow> istore \<Rightarrow> error + iref \<times> istore" where
  "operator_inc h this its =
     (case its this of
        None \<Rightarrow> Inl DanglingRef
      | Some it \<Rightarrow>
         (case load h (m_curr it) of
            Inl e \<Rightarrow> Inl e
          | Inr n \<Rightarrow> Inr (this, its(this \<mapsto> it\<lparr>m_curr := m_next n\<rparr>))))"

text \<open>
  \<^verbatim>\<open>bool operator!=(const DLLIterator &itr) const\<close> and \<^verbatim>\<open>int operator*()\<close> change
  no object; they take the states of the iterators they read.
\<close>

definition operator_neq :: "DLLIterator \<Rightarrow> DLLIterator \<Rightarrow> bool" where
  "operator_neq this itr = (m_curr itr \<noteq> m_curr this)"

definition operator_deref :: "heap \<Rightarrow> DLLIterator \<Rightarrow> error + cint" where
  "operator_deref h this =
     (case load h (m_curr this) of Inl e \<Rightarrow> Inl e | Inr n \<Rightarrow> Inr (m_value n))"

text \<open>
  \<^verbatim>\<open>DLLIterator &operator+(size_t offset)\<close>: the loop
  \<^verbatim>\<open>for (size_t i = 0; i < offset; ++i) curr_ = curr_->next_;\<close> with its counter
  \<open>i\<close>, then \<^verbatim>\<open>return *this\<close>. While \<open>i < offset\<close> the increment of \<open>i\<close> cannot
  wrap, so the loop ends.
\<close>

function plus_loop :: "heap \<Rightarrow> iref \<Rightarrow> size_t \<Rightarrow> size_t \<Rightarrow> istore \<Rightarrow> error + istore" where
  "plus_loop h this i offset its =
     (if i < offset then
        (case its this of
           None \<Rightarrow> Inl DanglingRef
         | Some it \<Rightarrow>
            (case load h (m_curr it) of
               Inl e \<Rightarrow> Inl e
             | Inr n \<Rightarrow> plus_loop h this (i + 1) offset (its(this \<mapsto> it\<lparr>m_curr := m_next n\<rparr>))))
      else Inr its)"
  by pat_completeness auto
termination
proof (relation "measure (\<lambda>(h, this, i, offset, its). unat offset - unat i)")
  show "wf (measure (\<lambda>(h, this, i, offset, its). unat offset - unat i))"
    by simp
next
  fix h :: heap and this :: iref and i offset :: size_t and its :: istore
    and it :: DLLIterator and n :: Node
  assume lt: "i < offset"
  then have less: "unat i < unat offset"
    by (simp add: word_less_nat_alt)
  moreover have "unat offset < 2 ^ LENGTH(64)"
    by (rule unsigned_less)
  ultimately have "unat i + unat (1 :: size_t) < 2 ^ LENGTH(64)"
    by simp
  then have "unat (i + 1) = unat i + unat (1 :: size_t)"
    by (simp only: unat_add_lem)
  with less show "((h, this, i + 1, offset, its(this \<mapsto> it\<lparr>m_curr := m_next n\<rparr>)),
      (h, this, i, offset, its)) \<in> measure (\<lambda>(h, this, i, offset, its). unat offset - unat i)"
    by simp
qed

definition operator_plus :: "heap \<Rightarrow> iref \<Rightarrow> size_t \<Rightarrow> istore \<Rightarrow> error + iref \<times> istore" where
  "operator_plus h this offset its =
     (case its this of
        None \<Rightarrow> Inl DanglingRef
      | Some _ \<Rightarrow>
         (case plus_loop h this 0 offset its of
            Inl e \<Rightarrow> Inl e
          | Inr its' \<Rightarrow> Inr (this, its')))"

text \<open>\<^verbatim>\<open>begin()\<close> and \<^verbatim>\<open>end()\<close>, each a new iterator returned by value.\<close>

definition DLL_begin :: "DLL \<Rightarrow> DLLIterator" where
  "DLL_begin d = \<lparr>m_curr = m_head d\<rparr>"

definition DLL_end :: "DLL \<Rightarrow> DLLIterator" where
  "DLL_end d = \<lparr>m_curr = nullptr\<rparr>"

text \<open>\<^verbatim>\<open>void InsertAtHead(int val)\<close>; \<open>new_node\<close> is the address \<^verbatim>\<open>new\<close> returns.\<close>

fun InsertAtHead :: "cint \<Rightarrow> addr \<Rightarrow> heap \<times> DLL \<Rightarrow> error + heap \<times> DLL" where
  "InsertAtHead val new_node (h, d) =
     (case new_Node new_node val h of
        Inl e \<Rightarrow> Inl e
      | Inr h1 \<Rightarrow>
         (case modify h1 new_node (\<lambda>n. n\<lparr>m_next := m_head d\<rparr>) of
            Inl e \<Rightarrow> Inl e
          | Inr h2 \<Rightarrow>
             (case (if m_head d \<noteq> nullptr
                    then modify h2 (m_head d) (\<lambda>n. n\<lparr>m_prev := new_node\<rparr>)
                    else Inr h2) of
                Inl e \<Rightarrow> Inl e
              | Inr h3 \<Rightarrow> Inr (h3, d\<lparr>m_head := new_node, m_size := m_size d + 1\<rparr>))))"

text \<open>
  The loop of \<^verbatim>\<open>main\<close>,
  \<^verbatim>\<open>for (DLL::DLLIterator iter = dll.begin(); iter != dll.end(); ++iter) std::cout << *iter\<close>,
  with the printed values collected in \<open>out\<close>; the range-based \<^verbatim>\<open>for\<close> before it is
  the same loop. On a chain of nodes that runs into a cycle the loop does not end:
  the result is then \<open>None\<close>. \<open>traverse\<close> is the loop with its local iterator
  \<open>iter\<close>, the only object of its store, set to \<^verbatim>\<open>dll.begin()\<close>.
\<close>

partial_function (option) for_loop ::
  "heap \<Rightarrow> DLL \<Rightarrow> iref \<Rightarrow> istore \<Rightarrow> cint list \<Rightarrow> (error + cint list) option" where
  [code]: "for_loop h d iter its out =
     (case its iter of
        None \<Rightarrow> Some (Inl DanglingRef)
      | Some it \<Rightarrow>
         if operator_neq it (DLL_end d) then
           (case operator_deref h it of
              Inl e \<Rightarrow> Some (Inl e)
            | Inr item \<Rightarrow>
               (case operator_inc h iter its of
                  Inl e \<Rightarrow> Some (Inl e)
                | Inr (r, its') \<Rightarrow> for_loop h d iter its' (out @ [item])))
         else Some (Inr out))"

definition traverse :: "heap \<Rightarrow> DLL \<Rightarrow> (error + cint list) option" where
  "traverse h d = for_loop h d 0 [0 \<mapsto> DLL_begin d] []"

text \<open>
  Callers: a sequence of \<^verbatim>\<open>InsertAtHead\<close> calls as \<^verbatim>\<open>main\<close> makes them, each with its
  value and the address its \<^verbatim>\<open>new\<close> returned; and \<open>k\<close> calls of \<^verbatim>\<open>operator++\<close> in a
  row, each on the iterator the call before returned.
\<close>

fun insert_all :: "(cint \<times> addr) list \<Rightarrow> heap \<times> DLL \<Rightarrow> error + heap \<times> DLL" where
  "insert_all [] s = Inr s"
| "insert_all ((val, new_node) # rest) s =
     (case InsertAtHead val new_node s of Inl e \<Rightarrow> Inl e | Inr s' \<Rightarrow> insert_all rest s')"

primrec inc_times :: "nat \<Rightarrow> heap \<Rightarrow> iref \<Rightarrow> istore \<Rightarrow> error + iref \<times> istore" where
  "inc_times 0 h this its = Inr (this, its)"
| "inc_times (Suc k) h this its =
     (case operator_inc h this its of
        Inl e \<Rightarrow> Inl e
      | Inr (r, its') \<Rightarrow> inc_times k h r its')"

text \<open>
  What a \<^verbatim>\<open>DLL\<close> stands for. \<open>chain h p ns\<close>: following \<^verbatim>\<open>next_\<close> from \<open>p\<close> in the
  heap \<open>h\<close> visits the live nodes with the addresses and values \<open>ns\<close>, in this
  order, and then reaches \<^verbatim>\<open>nullptr\<close>. \<open>wf_DLL h d ns\<close>: the list \<open>d\<close> holds
  the nodes \<open>ns\<close> and its \<^verbatim>\<open>size_\<close> is their number. \<open>pos ns k\<close> is the address
  \<open>k\<close> steps into the chain, \<^verbatim>\<open>nullptr\<close> past its end.
\<close>

fun chain :: "heap \<Rightarrow> addr \<Rightarrow> (addr \<times> cint) list \<Rightarrow> bool" where
  "chain h p [] = (p = nullptr)"
| "chain h p ((a, v) # ns) =
     (p = a \<and> a \<noteq> nullptr \<and>
      (case h a of None \<Rightarrow> False | Some n \<Rightarrow> m_value n = v \<and> chain h (m_next n) ns))"

definition wf_DLL :: "heap \<Rightarrow> DLL \<Rightarrow> (addr \<times> cint) list \<Rightarrow> bool" where
  "wf_DLL h d ns = (chain h (m_head d) ns \<and> unat (m_size d) = length ns)"

definition pos :: "(addr \<times> cint) list \<Rightarrow> nat \<Rightarrow> addr" where
  "pos ns k = (case drop k ns of [] \<Rightarrow> nullptr | (a, v) # rest \<Rightarrow> a)"

text \<open>
  The list of \<^verbatim>\<open>main\<close>: 6, 5, 4, 3, 2, 1 inserted in this order, at addresses picked
  for the example, and the heap and list that result.
\<close>

definition main_inserts :: "(cint \<times> addr) list" where
  "main_inserts = [(6, 16), (5, 32), (4, 48), (3, 64), (2, 80), (1, 96)]"

definition main_dll :: DLL where
  "main_dll = \<lparr>m_head = 96, m_size = 6\<rparr>"

definition main_heap :: heap where
  "main_heap =
     [16 \<mapsto> \<lparr>m_next = 0, m_prev = 32, m_value = 6\<rparr>,
      32 \<mapsto> \<lparr>m_next = 16, m_prev = 48, m_value = 5\<rparr>,
      48 \<mapsto> \<lparr>m_next = 32, m_prev = 64, m_value = 4\<rparr>,
      64 \<mapsto> \<lparr>m_next = 48, m_prev = 80, m_value = 3\<rparr>,
      80 \<mapsto> \<lparr>m_next = 64, m_prev = 96, m_value = 2\<rparr>,
      96 \<mapsto> \<lparr>m_next = 80, m_prev = 0, m_value = 1\<rparr>]"

definition main_nodes :: "(addr \<times> cint) list" where
  "main_nodes = [(96, 1), (80, 2), (64, 3), (48, 4), (32, 5), (16, 6)]"

declare plus_loop.simps [simp del] dtor_loop.simps [simp del]

section \<open>Properties of \<^verbatim>\<open>Person\<close>\<close>

lemma Person_assign_distinct:
  assumes "s this = Some t" and "s other = Some p" and "this \<noteq> other"
  shows "Person_assign impl this other s =
    Inr (this, s(this \<mapsto> t\<lparr>m_age := m_age p, m_nicknames := m_nicknames p, m_valid := True\<rparr>,
                 other \<mapsto> p\<lparr>m_nicknames := moved_from impl (m_nicknames p), m_valid := False\<rparr>))"
  using assms by (auto simp: Person_assign_def vector_move_assign_def upd_def Let_def)

lemma Person_assign_self:
  assumes "s this = Some t"
  shows "Person_assign impl this this s =
    Inr (this, s(this \<mapsto> t\<lparr>m_nicknames := self_moved impl (m_nicknames t), m_valid := False\<rparr>))"
  using assms by (simp add: Person_assign_def vector_move_assign_def upd_def Let_def)

lemma Person_move_fresh:
  assumes "s this = None" and "s person = Some p"
  shows "Person_move this person s =
    Inr (s(this \<mapsto> \<lparr>m_age = m_age p, m_nicknames = m_nicknames p, m_valid = True\<rparr>,
           person \<mapsto> p\<lparr>m_nicknames := [], m_valid := False\<rparr>))"
proof -
  from assms have "this \<noteq> person" by auto
  with assms show ?thesis
    by (auto simp: Person_move_def upd_def Let_def)
qed

lemma PrintValid_iff: "PrintValid p = ''Object is valid.'' \<longleftrightarrow> m_valid p"
  by (simp add: PrintValid_def)

text \<open>
  C1, as the code has it. The claim says that \<^verbatim>\<open>p = std::move(p)\<close> leaves \<open>p\<close>
  valid with its age and nicknames unchanged. The operator has no test for
  \<^verbatim>\<open>this == &other\<close>: its last statement clears the flag of the source, which is
  the target too. So for every person \<open>p\<close>, the assignment of \<open>p\<close> to itself returns
  \<open>p\<close>, leaves its age as it was and its flag false, and its nicknames are what the
  library's move assignment of a vector to itself leaves; no other object changes.
\<close>

theorem self_assign_invalidates:
  assumes "s this = Some t"
  shows "\<exists>s'. Person_assign impl this this s = Inr (this, s')
            \<and> map_option m_valid (s' this) = Some False
            \<and> map_option m_age (s' this) = Some (m_age t)
            \<and> map_option m_nicknames (s' this) = Some (self_moved impl (m_nicknames t))
            \<and> (\<forall>r. r \<noteq> this \<longrightarrow> s' r = s r)"
  using assms by (simp add: Person_assign_self)

theorem self_assign_invalidates_witness:
  "main_store 0 = Some andy
   \<and> (\<exists>s'. Person_assign emptying_impl 0 0 main_store = Inr (0, s')
            \<and> map_option m_valid (s' 0) = Some False
            \<and> map_option m_age (s' 0) = Some 15445
            \<and> map_option m_nicknames (s' 0) = Some []
            \<and> (\<forall>r. r \<noteq> 0 \<longrightarrow> s' r = main_store r))"
proof -
  have h: "main_store 0 = Some andy"
    by (simp add: main_store_def)
  show ?thesis
    using h self_assign_invalidates [where s = main_store and this = 0 and t = andy
        and impl = emptying_impl]
    by (simp add: andy_def emptying_impl_def)
qed

text \<open>
  C1 as stated fails on \<^verbatim>\<open>andy = std::move(andy)\<close>: the person is invalid
  afterwards even with a library that leaves a vector assigned to itself untouched,
  and with one that releases the buffer the nicknames are gone as well.
\<close>

theorem self_assign_counterexample:
  "(case Person_assign guarded_impl 0 0 main_store of
      Inl e \<Rightarrow> None | Inr (r, s') \<Rightarrow> map_option m_valid (s' 0)) = Some False
   \<and> (case Person_assign emptying_impl 0 0 main_store of
      Inl e \<Rightarrow> None | Inr (r, s') \<Rightarrow> map_option m_nicknames (s' 0)) = Some []
   \<and> map_option m_valid (main_store 0) = Some True
   \<and> map_option m_nicknames (main_store 0) = Some [''andy'', ''pavlo'']"
  by (simp add: Person_assign_def vector_move_assign_def upd_def main_store_def andy_def
      guarded_impl_def emptying_impl_def)

text \<open>
  C2: a person is valid right after its default or direct construction, on any
  storage \<open>this\<close> not in use, whatever else the store holds; the target of a move
  construction from any live person, and the target of a move assignment from
  another live person, is valid right after it, and the source is invalid. Each of
  the four operations succeeds under its own condition alone.
\<close>

theorem valid_after_construction_and_move:
  "(s this = None \<longrightarrow>
      (\<exists>s'. Person_default this s = Inr s' \<and> map_option m_valid (s' this) = Some True))
   \<and> (s this = None \<longrightarrow>
      (\<exists>s'. Person_init this age nicknames s = Inr s'
            \<and> map_option m_valid (s' this) = Some True))
   \<and> (s this = None \<and> s src = Some p \<longrightarrow>
      (\<exists>s'. Person_move this src s = Inr s'
            \<and> map_option m_valid (s' this) = Some True
            \<and> map_option m_valid (s' src) = Some False))
   \<and> (s tgt = Some q \<and> s src = Some p \<and> tgt \<noteq> src \<longrightarrow>
      (\<exists>s'. Person_assign impl tgt src s = Inr (tgt, s')
            \<and> map_option m_valid (s' tgt) = Some True
            \<and> map_option m_valid (s' src) = Some False))"
proof (intro conjI impI)
  assume "s this = None"
  then show "\<exists>s'. Person_default this s = Inr s' \<and> map_option m_valid (s' this) = Some True"
    by (simp add: Person_default_def)
next
  assume "s this = None"
  then show "\<exists>s'. Person_init this age nicknames s = Inr s'
      \<and> map_option m_valid (s' this) = Some True"
    by (simp add: Person_init_def)
next
  assume "s this = None \<and> s src = Some p"
  then have fresh: "s this = None" and src: "s src = Some p"
    by simp_all
  then have "this \<noteq> src" by auto
  then show "\<exists>s'. Person_move this src s = Inr s'
      \<and> map_option m_valid (s' this) = Some True \<and> map_option m_valid (s' src) = Some False"
    by (simp add: Person_move_fresh [OF fresh src])
next
  assume "s tgt = Some q \<and> s src = Some p \<and> tgt \<noteq> src"
  then have tgt: "s tgt = Some q" and src: "s src = Some p" and ne: "tgt \<noteq> src"
    by simp_all
  from ne show "\<exists>s'. Person_assign impl tgt src s = Inr (tgt, s')
      \<and> map_option m_valid (s' tgt) = Some True \<and> map_option m_valid (s' src) = Some False"
    by (simp add: Person_assign_distinct [OF tgt src ne])
qed

text \<open>
  The witness follows \<^verbatim>\<open>main\<close>: \<^verbatim>\<open>andy\<close> is constructed in a store with no person,
  \<^verbatim>\<open>andy1\<close> in the store that holds \<^verbatim>\<open>andy\<close> only, \<^verbatim>\<open>andy1 = std::move(andy)\<close>
  is a move assignment between the two, and a move construction from a person that
  is alone in its store.
\<close>

theorem valid_after_construction_and_move_witness:
  "(Map.empty :: pstore) 0 = None
   \<and> (\<exists>s'. Person_init 0 15445 [''andy'', ''pavlo''] Map.empty = Inr s'
            \<and> map_option m_valid (s' 0) = Some True)
   \<and> [0 \<mapsto> andy] (1 :: pref) = None
   \<and> (\<exists>s'. Person_default 1 [0 \<mapsto> andy] = Inr s' \<and> map_option m_valid (s' 1) = Some True)
   \<and> main_store 1 = Some \<lparr>m_age = 0, m_nicknames = [], m_valid = True\<rparr>
   \<and> main_store 0 = Some andy \<and> (1 :: pref) \<noteq> 0
   \<and> (\<exists>s'. Person_assign emptying_impl 1 0 main_store = Inr (1, s')
            \<and> map_option m_valid (s' 1) = Some True
            \<and> map_option m_valid (s' 0) = Some False)
   \<and> [0 \<mapsto> andy] (0 :: pref) = Some andy
   \<and> (\<exists>s'. Person_move 1 0 [0 \<mapsto> andy] = Inr s'
            \<and> map_option m_valid (s' 1) = Some True
            \<and> map_option m_valid (s' 0) = Some False)"
proof -
  have e: "(Map.empty :: pstore) 0 = None"
    and a1: "[0 \<mapsto> andy] (1 :: pref) = None"
    and a0: "[0 \<mapsto> andy] (0 :: pref) = Some andy"
    by simp_all
  have m1: "main_store 1 = Some \<lparr>m_age = 0, m_nicknames = [], m_valid = True\<rparr>"
    and m0: "main_store 0 = Some andy"
    and ne: "(1 :: pref) \<noteq> 0"
    by (simp_all add: main_store_def)
  note init = valid_after_construction_and_move [where s = Map.empty and this = 0
      and age = 15445 and nicknames = "[''andy'', ''pavlo'']",
      THEN conjunct2, THEN conjunct1, THEN mp, OF e]
  note default = valid_after_construction_and_move [where s = "[0 \<mapsto> andy]" and this = 1,
      THEN conjunct1, THEN mp, OF a1]
  note move = valid_after_construction_and_move [where s = "[0 \<mapsto> andy]" and this = 1
      and src = 0 and p = andy,
      THEN conjunct2, THEN conjunct2, THEN conjunct1, THEN mp, OF conjI, OF a1 a0]
  note assign = valid_after_construction_and_move [where s = main_store and tgt = 1
      and src = 0 and p = andy and q = "\<lparr>m_age = 0, m_nicknames = [], m_valid = True\<rparr>"
      and impl = emptying_impl,
      THEN conjunct2, THEN conjunct2, THEN conjunct2, THEN mp, OF conjI, OF m1 conjI, OF m0 ne]
  from e init a1 default m1 m0 ne assign a0 move show ?thesis
    by (intro conjI)
qed

text \<open>
  C9: the age of the source after a move construction from any live person, and
  after a move assignment to another live person, is the age it had before (the
  target holds a copy of it).
\<close>

theorem source_age_kept:
  "(s this = None \<and> s src = Some p \<longrightarrow>
      (\<exists>s'. Person_move this src s = Inr s'
            \<and> map_option m_age (s' src) = Some (m_age p)
            \<and> map_option m_age (s' this) = Some (m_age p)))
   \<and> (s tgt = Some q \<and> s src = Some p \<and> tgt \<noteq> src \<longrightarrow>
      (\<exists>s'. Person_assign impl tgt src s = Inr (tgt, s')
            \<and> map_option m_age (s' src) = Some (m_age p)
            \<and> map_option m_age (s' tgt) = Some (m_age p)))"
proof (intro conjI impI)
  assume "s this = None \<and> s src = Some p"
  then have fresh: "s this = None" and src: "s src = Some p"
    by simp_all
  then have "this \<noteq> src" by auto
  then show "\<exists>s'. Person_move this src s = Inr s'
      \<and> map_option m_age (s' src) = Some (m_age p) \<and> map_option m_age (s' this) = Some (m_age p)"
    by (simp add: Person_move_fresh [OF fresh src])
next
  assume "s tgt = Some q \<and> s src = Some p \<and> tgt \<noteq> src"
  then have tgt: "s tgt = Some q" and src: "s src = Some p" and ne: "tgt \<noteq> src"
    by simp_all
  from ne show "\<exists>s'. Person_assign impl tgt src s = Inr (tgt, s')
      \<and> map_option m_age (s' src) = Some (m_age p) \<and> map_option m_age (s' tgt) = Some (m_age p)"
    by (simp add: Person_assign_distinct [OF tgt src ne])
qed

theorem source_age_kept_witness:
  "[0 \<mapsto> andy] (1 :: pref) = None \<and> [0 \<mapsto> andy] (0 :: pref) = Some andy
   \<and> (\<exists>s'. Person_move 1 0 [0 \<mapsto> andy] = Inr s'
            \<and> map_option m_age (s' 0) = Some 15445
            \<and> map_option m_age (s' 1) = Some 15445)
   \<and> main_store 1 = Some \<lparr>m_age = 0, m_nicknames = [], m_valid = True\<rparr>
   \<and> main_store 0 = Some andy \<and> (1 :: pref) \<noteq> 0
   \<and> (\<exists>s'. Person_assign emptying_impl 1 0 main_store = Inr (1, s')
            \<and> map_option m_age (s' 0) = Some 15445
            \<and> map_option m_age (s' 1) = Some 15445)"
proof -
  have a1: "[0 \<mapsto> andy] (1 :: pref) = None"
    and a0: "[0 \<mapsto> andy] (0 :: pref) = Some andy"
    by simp_all
  have m1: "main_store 1 = Some \<lparr>m_age = 0, m_nicknames = [], m_valid = True\<rparr>"
    and m0: "main_store 0 = Some andy"
    and ne: "(1 :: pref) \<noteq> 0"
    by (simp_all add: main_store_def)
  have age: "m_age andy = 15445"
    by (simp add: andy_def)
  note move = source_age_kept [where s = "[0 \<mapsto> andy]" and this = 1 and src = 0 and p = andy,
      THEN conjunct1, THEN mp, OF conjI, OF a1 a0, unfolded age]
  note assign = source_age_kept [where s = main_store and tgt = 1 and src = 0 and p = andy
      and q = "\<lparr>m_age = 0, m_nicknames = [], m_valid = True\<rparr>" and impl = emptying_impl,
      THEN conjunct2, THEN mp, OF conjI, OF m1 conjI, OF m0 ne, unfolded age]
  from a1 a0 move m1 m0 ne assign show ?thesis
    by (intro conjI)
qed

text \<open>
  C10, as the code has it. Neither move operation reads the flag of its source:
  for every live source, whatever its flag (so also for a person already moved
  from), the operation succeeds, and setting the flag to any \<open>b\<close> beforehand gives
  the same result. Afterwards the flag of the source is false. The flag of the
  target is true when target and source are two objects, as they always are in a
  move construction; in a move assignment of a person to itself the flag is set to
  true and then to false, and the person is invalid.
\<close>

theorem source_flag_not_checked:
  "(s this = None \<and> s src = Some p \<longrightarrow>
      (\<exists>s'. Person_move this src s = Inr s'
            \<and> map_option m_valid (s' this) = Some True
            \<and> map_option m_valid (s' src) = Some False)
      \<and> Person_move this src (s(src \<mapsto> p\<lparr>m_valid := b\<rparr>)) = Person_move this src s)
   \<and> (s tgt = Some q \<and> s src = Some p \<longrightarrow>
      (\<exists>s'. Person_assign impl tgt src s = Inr (tgt, s')
            \<and> map_option m_valid (s' src) = Some False
            \<and> map_option m_valid (s' tgt) = Some (tgt \<noteq> src))
      \<and> Person_assign impl tgt src (s(src \<mapsto> p\<lparr>m_valid := b\<rparr>)) = Person_assign impl tgt src s)"
proof (intro conjI impI)
  assume "s this = None \<and> s src = Some p"
  then have fresh: "s this = None" and src: "s src = Some p"
    by simp_all
  then have ne: "this \<noteq> src" by auto
  let ?s = "s(src \<mapsto> p\<lparr>m_valid := b\<rparr>)"
  from ne show "\<exists>s'. Person_move this src s = Inr s'
      \<and> map_option m_valid (s' this) = Some True \<and> map_option m_valid (s' src) = Some False"
    by (simp add: Person_move_fresh [OF fresh src])
  have fresh': "?s this = None" and src': "?s src = Some (p\<lparr>m_valid := b\<rparr>)"
    using fresh ne by simp_all
  show "Person_move this src ?s = Person_move this src s"
    using ne by (auto simp: Person_move_fresh [OF fresh src] Person_move_fresh [OF fresh' src']
        fun_eq_iff)
next
  assume "s tgt = Some q \<and> s src = Some p"
  then have tgt: "s tgt = Some q" and src: "s src = Some p"
    by simp_all
  let ?s = "s(src \<mapsto> p\<lparr>m_valid := b\<rparr>)"
  have src': "?s src = Some (p\<lparr>m_valid := b\<rparr>)"
    by simp
  show "\<exists>s'. Person_assign impl tgt src s = Inr (tgt, s')
      \<and> map_option m_valid (s' src) = Some False
      \<and> map_option m_valid (s' tgt) = Some (tgt \<noteq> src)"
  proof (cases "tgt = src")
    case True
    with src show ?thesis
      by (simp add: Person_assign_self [where t = p])
  next
    case False
    then show ?thesis
      by (simp add: Person_assign_distinct [OF tgt src False])
  qed
  show "Person_assign impl tgt src ?s = Person_assign impl tgt src s"
  proof (cases "tgt = src")
    case True
    with src src' show ?thesis
      by (auto simp: Person_assign_self [where t = p]
          Person_assign_self [where t = "p\<lparr>m_valid := b\<rparr>"] fun_eq_iff)
  next
    case False
    then have tgt': "?s tgt = Some q"
      using tgt by simp
    from False show ?thesis
      by (auto simp: Person_assign_distinct [OF tgt src False]
          Person_assign_distinct [OF tgt' src' False] fun_eq_iff)
  qed
qed

text \<open>
  The witness has a source that is already invalid: \<^verbatim>\<open>andy\<close> with its flag false,
  beside \<^verbatim>\<open>andy1\<close>.
\<close>

theorem source_flag_not_checked_witness:
  "moved_store 2 = None \<and> moved_store 0 = Some (andy\<lparr>m_valid := False\<rparr>)
   \<and> moved_store 1 = Some \<lparr>m_age = 0, m_nicknames = [], m_valid = True\<rparr>
   \<and> (\<exists>s'. Person_move 2 0 moved_store = Inr s'
            \<and> map_option m_valid (s' 2) = Some True
            \<and> map_option m_valid (s' 0) = Some False)
   \<and> Person_move 2 0 (moved_store(0 \<mapsto> andy\<lparr>m_valid := False, m_valid := True\<rparr>))
       = Person_move 2 0 moved_store
   \<and> (\<exists>s'. Person_assign emptying_impl 1 0 moved_store = Inr (1, s')
            \<and> map_option m_valid (s' 0) = Some False
            \<and> map_option m_valid (s' 1) = Some True)
   \<and> Person_assign emptying_impl 1 0 (moved_store(0 \<mapsto> andy\<lparr>m_valid := False, m_valid := True\<rparr>))
       = Person_assign emptying_impl 1 0 moved_store
   \<and> (\<exists>s'. Person_assign emptying_impl 0 0 moved_store = Inr (0, s')
            \<and> map_option m_valid (s' 0) = Some False)"
proof -
  have f: "moved_store 2 = None"
    and m0: "moved_store 0 = Some (andy\<lparr>m_valid := False\<rparr>)"
    and m1: "moved_store 1 = Some \<lparr>m_age = 0, m_nicknames = [], m_valid = True\<rparr>"
    by (simp_all add: moved_store_def main_store_def)
  note move = source_flag_not_checked [where s = moved_store and this = 2 and src = 0
      and p = "andy\<lparr>m_valid := False\<rparr>" and b = True,
      THEN conjunct1, THEN mp, OF conjI, OF f m0]
  note assign = source_flag_not_checked [where s = moved_store and tgt = 1 and src = 0
      and p = "andy\<lparr>m_valid := False\<rparr>" and b = True
      and q = "\<lparr>m_age = 0, m_nicknames = [], m_valid = True\<rparr>" and impl = emptying_impl,
      THEN conjunct2, THEN mp, OF conjI, OF m1 m0]
  note self = source_flag_not_checked [where s = moved_store and tgt = 0 and src = 0
      and p = "andy\<lparr>m_valid := False\<rparr>" and b = True
      and q = "andy\<lparr>m_valid := False\<rparr>" and impl = emptying_impl,
      THEN conjunct2, THEN mp, OF conjI, OF m0 m0, THEN conjunct1]
  from assign [THEN conjunct1]
  have assign1: "\<exists>s'. Person_assign emptying_impl 1 0 moved_store = Inr (1, s')
      \<and> map_option m_valid (s' 0) = Some False \<and> map_option m_valid (s' 1) = Some True"
    by simp
  from self
  have self1: "\<exists>s'. Person_assign emptying_impl 0 0 moved_store = Inr (0, s')
      \<and> map_option m_valid (s' 0) = Some False"
    by simp
  from f m0 m1 move [THEN conjunct1] move [THEN conjunct2] assign1 assign [THEN conjunct2] self1
  show ?thesis
    by (intro conjI)
qed

text \<open>
  C10 as stated fails where source and target are the same person: after
  \<^verbatim>\<open>andy = std::move(andy)\<close> on an \<^verbatim>\<open>andy\<close> already moved from, the flag of the
  target (the person the operator returns) is false, not true, with either library.
\<close>

theorem target_flag_counterexample:
  "(case Person_assign emptying_impl 0 0 moved_store of
      Inl e \<Rightarrow> None | Inr (r, s') \<Rightarrow> map_option m_valid (s' r)) = Some False
   \<and> (case Person_assign guarded_impl 0 0 moved_store of
      Inl e \<Rightarrow> None | Inr (r, s') \<Rightarrow> map_option m_valid (s' r)) = Some False"
  by (simp add: Person_assign_def vector_move_assign_def upd_def moved_store_def main_store_def
      andy_def guarded_impl_def emptying_impl_def)

section \<open>Properties of \<^verbatim>\<open>DLL\<close> and \<^verbatim>\<open>DLLIterator\<close>\<close>

subsection \<open>Chains\<close>

lemma chain_nullptr [simp]: "chain h nullptr ns \<longleftrightarrow> ns = []"
  by (cases ns) auto

lemma chain_unique: "chain h p ns \<Longrightarrow> chain h p ms \<Longrightarrow> ns = ms"
proof (induction ns arbitrary: p ms)
  case Nil
  then show ?case by simp
next
  case (Cons x ns)
  obtain a v where x: "x = (a, v)" by (cases x)
  from Cons.prems(1) x obtain n :: Node where n: "p = a" "a \<noteq> nullptr" "h a = Some n"
    "m_value n = v" "chain h (m_next n) ns"
    by (auto split: option.splits)
  from Cons.prems(2) n(1,2) obtain y ms' where ms: "ms = y # ms'"
    by (cases ms) auto
  obtain b w where y: "y = (b, w)" by (cases y)
  from Cons.prems(2) ms y n have "b = a" "w = v" "chain h (m_next n) ms'"
    by auto
  with Cons.IH [OF n(5)] x y ms show ?case by simp
qed

lemma chain_suffix: "chain h p (xs @ ys) \<Longrightarrow> \<exists>q. chain h q ys"
proof (induction xs arbitrary: p)
  case Nil
  then show ?case by auto
next
  case (Cons x xs)
  obtain a v where "x = (a, v)" by (cases x)
  with Cons.prems obtain n :: Node where "chain h (m_next n) (xs @ ys)"
    by (auto split: option.splits)
  then show ?case by (rule Cons.IH)
qed

lemma chain_head_fresh:
  assumes "h a = Some n" and "chain h (m_next n) ns"
  shows "a \<notin> fst ` set ns"
proof
  assume "a \<in> fst ` set ns"
  then obtain v where "(a, v) \<in> set ns" by auto
  then obtain xs ys where ns: "ns = xs @ (a, v) # ys"
    by (auto simp: in_set_conv_decomp)
  with assms(2) obtain q where "chain h q ((a, v) # ys)"
    using chain_suffix by blast
  with assms(1) have "chain h (m_next n) ys"
    by simp
  with assms(2) have "ns = ys"
    by (rule chain_unique)
  with ns show False by simp
qed

lemma chain_distinct: "chain h p ns \<Longrightarrow> distinct (map fst ns)"
proof (induction ns arbitrary: p)
  case Nil
  then show ?case by simp
next
  case (Cons x ns)
  obtain a v where x: "x = (a, v)" by (cases x)
  with Cons.prems obtain n :: Node where n: "h a = Some n" "chain h (m_next n) ns"
    by (auto split: option.splits)
  from n have "a \<notin> fst ` set ns" by (rule chain_head_fresh)
  moreover from n(2) have "distinct (map fst ns)" by (rule Cons.IH)
  ultimately show ?case using x by simp
qed

lemma chain_allocated: "chain h p ns \<Longrightarrow> a \<in> fst ` set ns \<Longrightarrow> a \<noteq> nullptr \<and> h a \<noteq> None"
proof (induction ns arbitrary: p)
  case Nil
  then show ?case by simp
next
  case (Cons x ns)
  obtain b v where x: "x = (b, v)" by (cases x)
  with Cons.prems(1) obtain n :: Node where n: "b \<noteq> nullptr" "h b = Some n" "chain h (m_next n) ns"
    by (auto split: option.splits)
  show ?case
  proof (cases "a = b")
    case True
    with n show ?thesis by simp
  next
    case False
    with Cons.prems(2) x have "a \<in> fst ` set ns" by auto
    with n(3) show ?thesis by (rule Cons.IH)
  qed
qed

lemma chain_cong:
  assumes "\<And>a. a \<in> fst ` set ns \<Longrightarrow>
      map_option (\<lambda>n. (m_next n, m_value n)) (h' a) = map_option (\<lambda>n. (m_next n, m_value n)) (h a)"
  shows "chain h' p ns = chain h p ns"
  using assms
proof (induction ns arbitrary: p)
  case Nil
  then show ?case by simp
next
  case (Cons x ns)
  obtain a v where x: "x = (a, v)" by (cases x)
  have tl: "chain h' q ns = chain h q ns" for q
    by (rule Cons.IH) (simp add: Cons.prems)
  have "map_option (\<lambda>n. (m_next n, m_value n)) (h' a) = map_option (\<lambda>n. (m_next n, m_value n)) (h a)"
    by (rule Cons.prems) (simp add: x)
  then show ?case
    by (cases "h a"; cases "h' a") (auto simp: x tl)
qed

lemma chain_pos0: "chain h p ns \<Longrightarrow> pos ns 0 = p"
  by (cases ns) (auto simp: pos_def)

lemma pos_Cons_Suc [simp]: "pos (x # ns) (Suc k) = pos ns k"
  by (simp add: pos_def)

lemma pos_nth: "k < length ns \<Longrightarrow> pos ns k = fst (ns ! k)"
  by (auto simp: pos_def Cons_nth_drop_Suc [symmetric] split: prod.splits)

lemma pos_length [simp]: "pos ns (length ns) = nullptr"
  by (simp add: pos_def)

lemma DLLIterator_update [simp]: "(it :: DLLIterator)\<lparr>m_curr := q\<rparr> = \<lparr>m_curr = q\<rparr>"
  by (cases it) simp

lemma distinct_nonnull_length:
  fixes as :: "addr list"
  assumes "distinct as" and "nullptr \<notin> set as"
  shows "length as < 2 ^ 64"
proof -
  from assms(2) have "set as \<subseteq> UNIV - {nullptr}" by auto
  then have "card (set as) \<le> card (UNIV - {nullptr} :: addr set)"
    by (intro card_mono) auto
  also have "\<dots> = 2 ^ 64 - 1"
    by (simp add: card_Diff_singleton card_word)
  finally have "card (set as) < 2 ^ 64" by simp
  with assms(1) show ?thesis by (simp add: distinct_card)
qed


subsection \<open>Insertion\<close>

lemma unat_size_inc:
  fixes n :: size_t
  assumes "Suc (unat n) < 2 ^ 64"
  shows "unat (n + 1) = Suc (unat n)"
proof -
  from assms have "unat n + unat (1 :: size_t) < 2 ^ LENGTH(64)" by simp
  then have "unat (n + 1) = unat n + unat (1 :: size_t)"
    by (simp only: unat_add_lem)
  then show ?thesis by simp
qed

lemma InsertAtHead_wf:
  assumes wf: "wf_DLL h d ns" and a: "a \<noteq> nullptr" "h a = None"
  shows "\<exists>h'. InsertAtHead v a (h, d) = Inr (h', d\<lparr>m_head := a, m_size := m_size d + 1\<rparr>)
      \<and> wf_DLL h' (d\<lparr>m_head := a, m_size := m_size d + 1\<rparr>) ((a, v) # ns)
      \<and> dom h' = insert a (dom h)"
proof -
  let ?d' = "d\<lparr>m_head := a, m_size := m_size d + 1\<rparr>"
  let ?h2 = "h(a \<mapsto> \<lparr>m_next = m_head d, m_prev = nullptr, m_value = v\<rparr>)"
  from wf have ch: "chain h (m_head d) ns" and sz: "unat (m_size d) = length ns"
    by (simp_all add: wf_DLL_def)
  have alloc: "c \<noteq> nullptr \<and> h c \<noteq> None" if "c \<in> fst ` set ns" for c
    using ch that by (rule chain_allocated)
  have fresh: "a \<notin> fst ` set ns"
    using alloc a(2) by blast
  obtain h3 where ins: "InsertAtHead v a (h, d) = Inr (h3, ?d')"
    and h3: "h3 a = Some \<lparr>m_next = m_head d, m_prev = nullptr, m_value = v\<rparr>"
    and same: "\<And>c. c \<noteq> a \<Longrightarrow>
        map_option (\<lambda>n. (m_next n, m_value n)) (h3 c) = map_option (\<lambda>n. (m_next n, m_value n)) (h c)"
    and dom: "dom h3 = insert a (dom h)"
  proof (cases "m_head d = nullptr")
    case True
    show thesis
    proof (rule that [of ?h2])
      show "InsertAtHead v a (h, d) = Inr (?h2, ?d')"
        using a True by (simp add: new_Node_def modify_def load_def)
    qed (use a in auto)
  next
    case False
    with ch obtain w ns' where ns: "ns = (m_head d, w) # ns'"
      by (cases ns) auto
    with ch obtain nb :: Node where nb: "h (m_head d) = Some nb"
      by (auto split: option.splits)
    with a have ne: "m_head d \<noteq> a" by auto
    let ?h3 = "?h2(m_head d \<mapsto> nb\<lparr>m_prev := a\<rparr>)"
    show thesis
    proof (rule that [of ?h3])
      show "InsertAtHead v a (h, d) = Inr (?h3, ?d')"
        using a False nb ne by (simp add: new_Node_def modify_def load_def)
      show "?h3 a = Some \<lparr>m_next = m_head d, m_prev = nullptr, m_value = v\<rparr>"
        using ne by simp
      show "map_option (\<lambda>n. (m_next n, m_value n)) (?h3 c)
          = map_option (\<lambda>n. (m_next n, m_value n)) (h c)" if "c \<noteq> a" for c
        using that nb by simp
      show "dom ?h3 = insert a (dom h)"
        using nb by auto
    qed
  qed
  have "chain h3 (m_head d) ns = chain h (m_head d) ns"
  proof (rule chain_cong)
    fix c assume "c \<in> fst ` set ns"
    with fresh have "c \<noteq> a" by auto
    then show "map_option (\<lambda>n. (m_next n, m_value n)) (h3 c)
        = map_option (\<lambda>n. (m_next n, m_value n)) (h c)"
      by (rule same)
  qed
  with ch h3 a(1) have ch': "chain h3 a ((a, v) # ns)"
    by simp
  then have "distinct (map fst ((a, v) # ns))"
    by (rule chain_distinct)
  moreover have "nullptr \<notin> set (map fst ((a, v) # ns))"
    using alloc a(1) by auto
  ultimately have "length (map fst ((a, v) # ns)) < 2 ^ 64"
    by (rule distinct_nonnull_length)
  with sz have "unat (m_size d + 1) = Suc (length ns)"
    by (simp add: unat_size_inc)
  with ch' have "wf_DLL h3 ?d' ((a, v) # ns)"
    by (simp add: wf_DLL_def)
  with ins dom show ?thesis by blast
qed

lemma insert_all_wf:
  assumes "wf_DLL h d ns" and "distinct (map snd xs)" and "nullptr \<notin> snd ` set xs"
    and "snd ` set xs \<inter> dom h = {}"
  shows "\<exists>h' d'. insert_all xs (h, d) = Inr (h', d')
      \<and> wf_DLL h' d' (rev (map (\<lambda>(v, a). (a, v)) xs) @ ns)"
  using assms
proof (induction xs arbitrary: h d ns)
  case Nil
  then show ?case by simp
next
  case (Cons x xs)
  obtain v a where x: "x = (v, a)" by (cases x)
  from Cons.prems x have a: "a \<noteq> nullptr" "h a = None"
    by (auto simp: domIff)
  let ?d1 = "d\<lparr>m_head := a, m_size := m_size d + 1\<rparr>"
  from InsertAtHead_wf [OF Cons.prems(1) a, of v] obtain h1
    where step: "InsertAtHead v a (h, d) = Inr (h1, ?d1)"
      and wf1: "wf_DLL h1 ?d1 ((a, v) # ns)" and dom1: "dom h1 = insert a (dom h)"
    by blast
  from Cons.prems x dom1 have "distinct (map snd xs)" "nullptr \<notin> snd ` set xs"
    "snd ` set xs \<inter> dom h1 = {}"
    by auto
  from Cons.IH [OF wf1 this] obtain h' d'
    where "insert_all xs (h1, ?d1) = Inr (h', d')"
      and "wf_DLL h' d' (rev (map (\<lambda>(v, a). (a, v)) xs) @ (a, v) # ns)"
    by blast
  with step x show ?case by simp
qed

lemma InsertAtHead_success:
  assumes "InsertAtHead v a (h, d) = Inr (h', d')"
  shows "a \<noteq> nullptr \<and> h a = None \<and> dom h' = insert a (dom h)"
  using assms
  by (auto simp: new_Node_def modify_def load_def split: if_splits option.splits sum.splits)

lemma insert_all_success:
  assumes "insert_all xs (h, d) = Inr (h', d')"
  shows "distinct (map snd xs) \<and> nullptr \<notin> snd ` set xs \<and> snd ` set xs \<inter> dom h = {}"
  using assms
proof (induction xs arbitrary: h d)
  case Nil
  then show ?case by simp
next
  case (Cons x xs)
  obtain v a where x: "x = (v, a)" by (cases x)
  with Cons.prems obtain h1 d1 where step: "InsertAtHead v a (h, d) = Inr (h1, d1)"
    and rest: "insert_all xs (h1, d1) = Inr (h', d')"
    by (auto split: sum.splits)
  from step have a: "a \<noteq> nullptr" "h a = None" "dom h1 = insert a (dom h)"
    using InsertAtHead_success by blast+
  from Cons.IH [OF rest] have "distinct (map snd xs)" "nullptr \<notin> snd ` set xs"
    "snd ` set xs \<inter> dom h1 = {}"
    by blast+
  with a x show ?case by (auto simp: domIff)
qed

subsection \<open>Cursors\<close>

lemma operator_inc_chain:
  assumes "chain h p ((a, v) # ns)" and "its this = Some it" and "m_curr it = p"
  shows "\<exists>q. operator_inc h this its = Inr (this, its(this \<mapsto> \<lparr>m_curr = q\<rparr>)) \<and> chain h q ns
      \<and> operator_deref h it = Inr v"
  using assms
  by (auto simp: operator_inc_def operator_deref_def load_def split: option.splits)

lemma for_loop_chain:
  assumes "chain h p ns" and "its iter = Some \<lparr>m_curr = p\<rparr>"
  shows "for_loop h d iter its out = Some (Inr (out @ map snd ns))"
  using assms
proof (induction ns arbitrary: p its out)
  case Nil
  then show ?case
    by (subst for_loop.simps) (simp add: operator_neq_def DLL_end_def)
next
  case (Cons x ns)
  obtain a v where x: "x = (a, v)" by (cases x)
  from Cons.prems x have p: "p \<noteq> nullptr" by auto
  from operator_inc_chain [of h p a v ns its iter "\<lparr>m_curr = p\<rparr>"] Cons.prems x
  obtain q where step: "operator_inc h iter its = Inr (iter, its(iter \<mapsto> \<lparr>m_curr = q\<rparr>))"
    and q: "chain h q ns" and v: "operator_deref h \<lparr>m_curr = p\<rparr> = Inr v"
    by auto
  have "for_loop h d iter (its(iter \<mapsto> \<lparr>m_curr = q\<rparr>)) (out @ [v])
      = Some (Inr ((out @ [v]) @ map snd ns))"
    by (rule Cons.IH [OF q]) simp
  with Cons.prems(2) p step v x show ?case
    by (subst for_loop.simps) (simp add: operator_neq_def DLL_end_def)
qed

lemma chain_pos: "chain h p ns \<Longrightarrow> chain h (pos ns k) (drop k ns)"
proof (induction k arbitrary: p ns)
  case 0
  then show ?case by (cases ns) (auto simp: pos_def)
next
  case (Suc k)
  show ?case
  proof (cases ns)
    case Nil
    then show ?thesis by (simp add: pos_def)
  next
    case (Cons x ns')
    obtain a v where "x = (a, v)" by (cases x)
    with Suc.prems Cons obtain n :: Node where "chain h (m_next n) ns'"
      by (auto split: option.splits)
    then have "chain h (pos ns' k) (drop k ns')" by (rule Suc.IH)
    with Cons show ?thesis by simp
  qed
qed

lemma inc_times_chain:
  assumes "chain h p ns" and "its this = Some it" and "m_curr it = p" and "k \<le> length ns"
  shows "inc_times k h this its = Inr (this, its(this \<mapsto> \<lparr>m_curr = pos ns k\<rparr>))"
  using assms
proof (induction k arbitrary: p ns its it)
  case 0
  then have "pos ns 0 = m_curr it" by (simp add: chain_pos0)
  then have "\<lparr>m_curr = pos ns 0\<rparr> = it" by (cases it) simp
  then have "its(this \<mapsto> \<lparr>m_curr = pos ns 0\<rparr>) = its"
    using "0.prems"(2) by auto
  with "0.prems"(2) show ?case by simp
next
  case (Suc k)
  then obtain a v ns' where ns: "ns = (a, v) # ns'"
    by (cases ns) auto
  from operator_inc_chain [of h p a v ns' its this it] Suc.prems ns
  obtain q where step: "operator_inc h this its = Inr (this, its(this \<mapsto> \<lparr>m_curr = q\<rparr>))"
    and q: "chain h q ns'"
    by auto
  have "inc_times (Suc k) h this its = inc_times k h this (its(this \<mapsto> \<lparr>m_curr = q\<rparr>))"
    using step by simp
  also have "\<dots> = Inr (this, (its(this \<mapsto> \<lparr>m_curr = q\<rparr>))(this \<mapsto> \<lparr>m_curr = pos ns' k\<rparr>))"
    using Suc.prems(4) ns by (intro Suc.IH [OF q]) auto
  also have "\<dots> = Inr (this, its(this \<mapsto> \<lparr>m_curr = pos ns (Suc k)\<rparr>))"
    by (simp add: ns)
  finally show ?case .
qed

lemma plus_loop_inc_times:
  assumes "its this = Some it" and "i \<le> offset" and "unat offset - unat i = m"
  shows "(case inc_times m h this its of
            Inl e \<Rightarrow> Inl e | Inr (r, its') \<Rightarrow> Inr its') = plus_loop h this i offset its"
  using assms
proof (induction m arbitrary: its it i)
  case 0
  then have "\<not> i < offset"
    by (simp add: word_less_nat_alt word_le_nat_alt)
  with "0.prems"(1) show ?case by (simp add: plus_loop.simps [of h this i])
next
  case (Suc m)
  then have lt: "i < offset"
    by (simp add: word_less_nat_alt)
  then have "Suc (unat i) < 2 ^ 64"
    using unsigned_less [of offset, where 'a = nat]
    by (simp add: word_less_nat_alt)
  then have inc: "unat (i + 1) = Suc (unat i)"
    by (rule unat_size_inc)
  with lt Suc.prems(3) have le: "i + 1 \<le> offset" and m: "unat offset - unat (i + 1) = m"
    by (simp_all add: word_less_nat_alt word_le_nat_alt)
  show ?case
  proof (cases "load h (m_curr it)")
    case (Inl e)
    with Suc.prems(1) lt show ?thesis
      by (simp add: operator_inc_def plus_loop.simps [of h this i])
  next
    case (Inr n)
    let ?its = "its(this \<mapsto> it\<lparr>m_curr := m_next n\<rparr>)"
    have "(case inc_times m h this ?its of Inl e \<Rightarrow> Inl e | Inr (r, its') \<Rightarrow> Inr its')
        = plus_loop h this (i + 1) offset ?its"
      by (rule Suc.IH [OF _ le m]) simp
    with Suc.prems(1) lt Inr show ?thesis
      by (simp add: operator_inc_def plus_loop.simps [of h this i])
  qed
qed

lemma inc_times_this: "inc_times k h this its = Inr (r, its') \<Longrightarrow> r = this"
  by (induction k arbitrary: its)
    (auto simp: operator_inc_def split: option.splits sum.splits)

lemma operator_plus_inc_times:
  assumes "its this = Some it"
  shows "operator_plus h this offset its = inc_times (unat offset) h this its"
proof -
  have eq: "(case inc_times (unat offset) h this its of
      Inl e \<Rightarrow> Inl e | Inr (r, its') \<Rightarrow> Inr its') = plus_loop h this 0 offset its"
    by (rule plus_loop_inc_times [where it = it]) (simp_all add: assms)
  show ?thesis
  proof (cases "inc_times (unat offset) h this its")
    case (Inl e)
    with eq have "plus_loop h this 0 offset its = Inl e" by simp
    with assms Inl show ?thesis by (simp add: operator_plus_def)
  next
    case (Inr res)
    obtain r its' where res: "res = (r, its')" by (cases res)
    with Inr have "r = this" by (auto dest: inc_times_this)
    moreover from eq Inr res have "plus_loop h this 0 offset its = Inr its'" by simp
    ultimately show ?thesis using assms Inr res by (simp add: operator_plus_def)
  qed
qed

subsection \<open>Destruction\<close>

lemma dtor_loop_chain:
  assumes "chain h p ns"
  shows "dtor_loop h p freed = Inr (h |` (- fst ` set ns), freed @ map fst ns)"
  using assms
proof (induction ns arbitrary: h p freed)
  case Nil
  then show ?case by (simp add: dtor_loop.simps)
next
  case (Cons x ns)
  obtain a v where x: "x = (a, v)" by (cases x)
  with Cons.prems obtain n :: Node where n: "p = a" "a \<noteq> nullptr" "h a = Some n"
    "chain h (m_next n) ns"
    by (auto split: option.splits)
  from n(3,4) have fresh: "a \<notin> fst ` set ns" by (rule chain_head_fresh)
  have "chain (h(a := None)) (m_next n) ns = chain h (m_next n) ns"
    by (rule chain_cong) (use fresh in auto)
  with n(4) have "chain (h(a := None)) (m_next n) ns" by simp
  then have "dtor_loop (h(a := None)) (m_next n) (freed @ [a])
      = Inr ((h(a := None)) |` (- fst ` set ns), (freed @ [a]) @ map fst ns)"
    by (rule Cons.IH)
  moreover have "(h(a := None)) |` (- fst ` set ns) = h |` (- fst ` set (x # ns))"
    by (auto simp: x restrict_map_def fun_eq_iff)
  moreover have "dtor_loop h p freed = dtor_loop (h(a := None)) (m_next n) (freed @ [a])"
    by (subst dtor_loop.simps) (simp add: n load_def delete_Node_def)
  ultimately show ?case
    by (simp add: x)
qed

lemma deref_chain:
  assumes "chain h p ns" and "k < length ns"
  shows "operator_deref h \<lparr>m_curr = pos ns k\<rparr> = Inr (snd (ns ! k))"
proof -
  from assms(1) have "chain h (pos ns k) (drop k ns)" by (rule chain_pos)
  moreover from assms(2) have "drop k ns = ns ! k # drop (Suc k) ns"
    by (simp add: Cons_nth_drop_Suc)
  moreover obtain a v where "ns ! k = (a, v)"
    by (cases "ns ! k")
  ultimately have "chain h (pos ns k) ((a, v) # drop (Suc k) ns)" and "snd (ns ! k) = v"
    by simp_all
  then show ?thesis
    by (auto simp: operator_deref_def load_def split: option.splits)
qed

subsection \<open>The list of \<^verbatim>\<open>main\<close> and the claims\<close>

lemma main_wf: "wf_DLL main_heap main_dll main_nodes"
  by (simp add: wf_DLL_def main_heap_def main_dll_def main_nodes_def nullptr_def)

lemma main_built: "insert_all main_inserts (Map.empty, DLL_new) = Inr (main_heap, main_dll)"
  by (simp add: main_inserts_def DLL_new_def new_Node_def modify_def load_def nullptr_def
      main_heap_def main_dll_def fun_eq_iff)

lemma rev_swap_values: "map snd (rev (map (\<lambda>(v, a). (a, v)) xs)) = rev (map fst xs)"
  by (induction xs) auto

lemma zip_addresses:
  assumes "length as = length vs"
  shows "map snd (zip vs as) = as" and "map fst (zip vs as) = vs"
    and "snd ` set (zip vs as) = set as"
proof -
  from assms show 1: "map snd (zip vs as) = as" and "map fst (zip vs as) = vs"
    by simp_all
  have "snd ` set (zip vs as) = set (map snd (zip vs as))"
    by (simp only: set_map)
  with 1 show "snd ` set (zip vs as) = set as"
    by simp
qed

lemma insert_all_fresh:
  assumes "length as = length vs" and "distinct as" and "nullptr \<notin> set as"
    and "set as \<inter> dom h0 = {}"
  shows "\<exists>h d. insert_all (zip vs as) (h0, DLL_new) = Inr (h, d)
      \<and> unat (m_size d) = length vs
      \<and> traverse h d = Some (Inr (rev vs))"
proof -
  define xs where "xs = zip vs as"
  define ns where "ns = rev (map (\<lambda>(v, a). (a, v)) xs)"
  note zip = zip_addresses [OF assms(1), folded xs_def]
  have empty: "wf_DLL h0 DLL_new []"
    by (simp add: wf_DLL_def DLL_new_def)
  have fresh: "distinct (map snd xs)" "nullptr \<notin> snd ` set xs" "snd ` set xs \<inter> dom h0 = {}"
    using assms(2-4) unfolding zip .
  from insert_all_wf [OF empty fresh, folded ns_def]
  obtain h d where ins: "insert_all xs (h0, DLL_new) = Inr (h, d)"
    and wf: "wf_DLL h d (ns @ [])"
    by blast
  have vals: "map snd ns = rev vs"
    by (simp only: ns_def rev_swap_values zip)
  have "length ns = length (map fst xs)"
    by (simp only: ns_def length_rev length_map)
  then have len: "length ns = length vs"
    by (simp only: zip)
  from wf have ch: "chain h (m_head d) ns" and sz: "unat (m_size d) = length ns"
    by (simp_all only: wf_DLL_def append_Nil2)
  have "traverse h d = Some (Inr ([] @ map snd ns))"
    unfolding traverse_def by (rule for_loop_chain [OF ch]) (simp add: DLL_begin_def)
  then have "traverse h d = Some (Inr (rev vs))"
    by (simp only: vals append_Nil)
  moreover from sz len have "unat (m_size d) = length vs"
    by (simp only:)
  ultimately show ?thesis using ins unfolding xs_def by blast
qed

text \<open>
  C3: \<open>N\<close> values \<open>vs\<close> are inserted with \<^verbatim>\<open>InsertAtHead\<close> into a new, empty list,
  in any heap \<open>h0\<close>; \<open>as\<close> are the addresses that \<^verbatim>\<open>new\<close> returns. Whenever these
  are addresses an allocator can return (distinct, not null, not in use), all
  insertions succeed. And whenever all insertions succeed, \<^verbatim>\<open>size_\<close> is \<open>N\<close> (as a
  number, with no wrap-around) and the loop from \<^verbatim>\<open>begin()\<close> to \<^verbatim>\<open>end()\<close> ends and
  yields the inserted values in reverse order of insertion.
\<close>

theorem insert_then_traverse:
  assumes "length as = length vs"
  shows "(distinct as \<and> nullptr \<notin> set as \<and> set as \<inter> dom h0 = {}
          \<longrightarrow> (\<exists>h d. insert_all (zip vs as) (h0, DLL_new) = Inr (h, d)))
       \<and> (\<forall>h d. insert_all (zip vs as) (h0, DLL_new) = Inr (h, d)
          \<longrightarrow> unat (m_size d) = length vs \<and> traverse h d = Some (Inr (rev vs)))"
proof (intro conjI impI allI)
  assume "distinct as \<and> nullptr \<notin> set as \<and> set as \<inter> dom h0 = {}"
  then have "distinct as" and "nullptr \<notin> set as" and "set as \<inter> dom h0 = {}"
    by simp_all
  from insert_all_fresh [OF assms this] obtain h d
    where "insert_all (zip vs as) (h0, DLL_new) = Inr (h, d)"
    by blast
  then show "\<exists>h d. insert_all (zip vs as) (h0, DLL_new) = Inr (h, d)"
    by (intro exI)
next
  fix h d
  assume run: "insert_all (zip vs as) (h0, DLL_new) = Inr (h, d)"
  note zip = zip_addresses [OF assms]
  from insert_all_success [OF run]
  have "distinct as" and "nullptr \<notin> set as" and "set as \<inter> dom h0 = {}"
    unfolding zip by simp_all
  from insert_all_fresh [OF assms this] obtain h' d'
    where run': "insert_all (zip vs as) (h0, DLL_new) = Inr (h', d')"
      and props: "unat (m_size d') = length vs" "traverse h' d' = Some (Inr (rev vs))"
    by blast
  from run run' have "h' = h" and "d' = d"
    by simp_all
  with props show "unat (m_size d) = length vs" and "traverse h d = Some (Inr (rev vs))"
    by (simp_all only:)
qed

theorem insert_then_traverse_witness:
  "length [16, 32, 48, 64, 80, 96 :: addr] = length [6, 5, 4, 3, 2, 1 :: cint]
   \<and> distinct [16, 32, 48, 64, 80, 96 :: addr]
   \<and> nullptr \<notin> set [16, 32, 48, 64, 80, 96 :: addr]
   \<and> set [16, 32, 48, 64, 80, 96 :: addr] \<inter> dom (Map.empty :: heap) = {}
   \<and> insert_all (zip [6, 5, 4, 3, 2, 1] [16, 32, 48, 64, 80, 96]) (Map.empty, DLL_new)
       = Inr (main_heap, main_dll)
   \<and> unat (m_size main_dll) = 6
   \<and> traverse main_heap main_dll = Some (Inr [1, 2, 3, 4, 5, 6])"
proof -
  have h1: "length [16, 32, 48, 64, 80, 96 :: addr] = length [6, 5, 4, 3, 2, 1 :: cint]"
    and h2: "distinct [16, 32, 48, 64, 80, 96 :: addr]"
    and h3: "nullptr \<notin> set [16, 32, 48, 64, 80, 96 :: addr]"
    and h4: "set [16, 32, 48, 64, 80, 96 :: addr] \<inter> dom (Map.empty :: heap) = {}"
    by (simp_all add: nullptr_def)
  have run: "insert_all (zip [6, 5, 4, 3, 2, 1] [16, 32, 48, 64, 80, 96]) (Map.empty, DLL_new)
      = Inr (main_heap, main_dll)"
    using main_built by (simp add: main_inserts_def)
  from insert_then_traverse [OF h1, of Map.empty] run
  have "unat (m_size main_dll) = length [6, 5, 4, 3, 2, 1 :: cint]"
    and "traverse main_heap main_dll = Some (Inr (rev [6, 5, 4, 3, 2, 1]))"
    by blast+
  then have "unat (m_size main_dll) = 6"
    and "traverse main_heap main_dll = Some (Inr [1, 2, 3, 4, 5, 6])"
    by simp_all
  with h1 h2 h3 h4 run show ?thesis by blast
qed

text \<open>
  C4: for a list \<open>d\<close> with nodes \<open>ns\<close>, an iterator object at \<open>this\<close> that holds
  \<^verbatim>\<open>begin()\<close> and \<open>k < size_\<close>: \<^verbatim>\<open>operator+\<close> with offset \<open>k\<close> and \<open>k\<close> calls of
  \<^verbatim>\<open>operator++\<close> both succeed, both return the reference \<open>this\<close>, and both leave
  the same store, in which only the object at \<open>this\<close> has changed: it is at the
  node number \<open>k\<close>, and dereferencing it yields the value of that node.
\<close>

theorem plus_agrees_with_inc:
  assumes "wf_DLL h d ns" and "k < m_size d" and "its this = Some (DLL_begin d)"
  shows "operator_plus h this k its = Inr (this, its(this \<mapsto> \<lparr>m_curr = fst (ns ! unat k)\<rparr>))
      \<and> inc_times (unat k) h this its = Inr (this, its(this \<mapsto> \<lparr>m_curr = fst (ns ! unat k)\<rparr>))
      \<and> operator_deref h \<lparr>m_curr = fst (ns ! unat k)\<rparr> = Inr (snd (ns ! unat k))"
proof -
  from assms(1) have ch: "chain h (m_head d) ns" and sz: "unat (m_size d) = length ns"
    by (simp_all add: wf_DLL_def)
  from assms(2) sz have k: "unat k < length ns"
    by (simp add: word_less_nat_alt)
  then have pos: "pos ns (unat k) = fst (ns ! unat k)"
    by (rule pos_nth)
  have "inc_times (unat k) h this its = Inr (this, its(this \<mapsto> \<lparr>m_curr = pos ns (unat k)\<rparr>))"
    using ch assms(3) _ k [THEN less_imp_le] by (rule inc_times_chain) (simp add: DLL_begin_def)
  with pos have inc: "inc_times (unat k) h this its
      = Inr (this, its(this \<mapsto> \<lparr>m_curr = fst (ns ! unat k)\<rparr>))"
    by simp
  moreover from inc have "operator_plus h this k its
      = Inr (this, its(this \<mapsto> \<lparr>m_curr = fst (ns ! unat k)\<rparr>))"
    using assms(3) by (simp add: operator_plus_inc_times [where it = "DLL_begin d"])
  moreover from deref_chain [OF ch k] pos
  have "operator_deref h \<lparr>m_curr = fst (ns ! unat k)\<rparr> = Inr (snd (ns ! unat k))"
    by simp
  ultimately show ?thesis by blast
qed

theorem plus_agrees_with_inc_witness:
  "wf_DLL main_heap main_dll main_nodes \<and> 2 < m_size main_dll
   \<and> [0 \<mapsto> DLL_begin main_dll] (0 :: iref) = Some (DLL_begin main_dll)
   \<and> operator_plus main_heap 0 2 [0 \<mapsto> DLL_begin main_dll] = Inr (0, [0 \<mapsto> \<lparr>m_curr = 64\<rparr>])
   \<and> inc_times 2 main_heap 0 [0 \<mapsto> DLL_begin main_dll] = Inr (0, [0 \<mapsto> \<lparr>m_curr = 64\<rparr>])
   \<and> operator_deref main_heap \<lparr>m_curr = 64\<rparr> = Inr 3"
proof -
  have h2: "2 < m_size main_dll"
    by (simp add: main_dll_def)
  have h3: "[0 \<mapsto> DLL_begin main_dll] (0 :: iref) = Some (DLL_begin main_dll)"
    by simp
  from plus_agrees_with_inc [where its = "[0 \<mapsto> DLL_begin main_dll]" and this = 0,
      OF main_wf h2 h3] main_wf h2
  show ?thesis
    by (simp add: main_nodes_def)
qed

text \<open>
  C5: for a list \<open>d\<close> with nodes \<open>ns\<close> and an iterator object that holds
  \<^verbatim>\<open>begin()\<close>: after \<^verbatim>\<open>size_\<close> calls of \<^verbatim>\<open>operator++\<close> it is equal to \<^verbatim>\<open>end()\<close>, and
  after fewer calls it is not; \<^verbatim>\<open>begin() != end()\<close> is false exactly when \<^verbatim>\<open>size_\<close>
  is 0, that is when the list has no node; and \<^verbatim>\<open>operator!=\<close> is true exactly when
  the two iterators hold different node addresses, whatever the nodes store.
\<close>

theorem end_after_size_steps:
  assumes "wf_DLL h d ns" and "its this = Some (DLL_begin d)"
  shows "inc_times (unat (m_size d)) h this its = Inr (this, its(this \<mapsto> DLL_end d))
      \<and> (\<forall>j < unat (m_size d). \<exists>c. inc_times j h this its = Inr (this, its(this \<mapsto> c))
            \<and> operator_neq c (DLL_end d))
      \<and> (\<not> operator_neq (DLL_begin d) (DLL_end d) \<longleftrightarrow> m_size d = 0)
      \<and> (m_size d = 0 \<longleftrightarrow> ns = [])
      \<and> (\<forall>it1 it2. operator_neq it1 it2 \<longleftrightarrow> m_curr it1 \<noteq> m_curr it2)"
proof -
  from assms(1) have ch: "chain h (m_head d) ns" and sz: "unat (m_size d) = length ns"
    by (simp_all add: wf_DLL_def)
  have cur: "m_curr (DLL_begin d) = m_head d"
    by (simp add: DLL_begin_def)
  have "inc_times (length ns) h this its = Inr (this, its(this \<mapsto> \<lparr>m_curr = pos ns (length ns)\<rparr>))"
    using ch assms(2) cur by (rule inc_times_chain) simp
  with sz have "inc_times (unat (m_size d)) h this its = Inr (this, its(this \<mapsto> DLL_end d))"
    by (simp add: DLL_end_def)
  moreover have "\<exists>c. inc_times j h this its = Inr (this, its(this \<mapsto> c))
      \<and> operator_neq c (DLL_end d)" if "j < unat (m_size d)" for j
  proof -
    from that sz have j: "j < length ns" by simp
    have "inc_times j h this its = Inr (this, its(this \<mapsto> \<lparr>m_curr = pos ns j\<rparr>))"
      using ch assms(2) cur j [THEN less_imp_le] by (rule inc_times_chain)
    moreover have "pos ns j \<noteq> nullptr"
      using chain_allocated [OF ch, of "fst (ns ! j)"] j by (simp add: pos_nth)
    ultimately show ?thesis
      by (auto simp: operator_neq_def DLL_end_def)
  qed
  moreover have empty: "m_size d = 0 \<longleftrightarrow> ns = []"
    using sz by (auto simp: unat_eq_0)
  moreover have "\<not> operator_neq (DLL_begin d) (DLL_end d) \<longleftrightarrow> m_size d = 0"
    using ch empty by (cases ns) (auto simp: operator_neq_def DLL_begin_def DLL_end_def)
  moreover have "\<forall>it1 it2. operator_neq it1 it2 \<longleftrightarrow> m_curr it1 \<noteq> m_curr it2"
    by (auto simp: operator_neq_def)
  ultimately show ?thesis by blast
qed

theorem end_after_size_steps_witness:
  "wf_DLL main_heap main_dll main_nodes
   \<and> [0 \<mapsto> DLL_begin main_dll] (0 :: iref) = Some (DLL_begin main_dll)
   \<and> inc_times 6 main_heap 0 [0 \<mapsto> DLL_begin main_dll] = Inr (0, [0 \<mapsto> DLL_end main_dll])
   \<and> (\<exists>c. inc_times 5 main_heap 0 [0 \<mapsto> DLL_begin main_dll] = Inr (0, [0 \<mapsto> c])
         \<and> operator_neq c (DLL_end main_dll))
   \<and> operator_neq (DLL_begin main_dll) (DLL_end main_dll)
   \<and> operator_neq \<lparr>m_curr = 16\<rparr> \<lparr>m_curr = 32\<rparr>"
proof -
  have h2: "[0 \<mapsto> DLL_begin main_dll] (0 :: iref) = Some (DLL_begin main_dll)"
    by simp
  have sz: "unat (m_size main_dll) = 6"
    by (simp add: main_dll_def)
  have ne: "m_size main_dll \<noteq> 0"
    by (simp add: main_dll_def)
  note all = end_after_size_steps [where its = "[0 \<mapsto> DLL_begin main_dll]" and this = 0,
      OF main_wf h2]
  note last = all [THEN conjunct1]
  note before = all [THEN conjunct2, THEN conjunct1]
  note empty = all [THEN conjunct2, THEN conjunct2, THEN conjunct1]
  note ident = all [THEN conjunct2, THEN conjunct2, THEN conjunct2, THEN conjunct2]
  from last have "inc_times 6 main_heap 0 [0 \<mapsto> DLL_begin main_dll]
      = Inr (0, [0 \<mapsto> DLL_end main_dll])"
    by (simp add: sz)
  moreover from before have "\<forall>j < 6.
      \<exists>c. inc_times j main_heap 0 [0 \<mapsto> DLL_begin main_dll] = Inr (0, [0 \<mapsto> c])
        \<and> operator_neq c (DLL_end main_dll)"
    by (simp add: sz)
  then have "\<exists>c. inc_times 5 main_heap 0 [0 \<mapsto> DLL_begin main_dll] = Inr (0, [0 \<mapsto> c])
      \<and> operator_neq c (DLL_end main_dll)"
    by simp
  moreover from empty ne have "operator_neq (DLL_begin main_dll) (DLL_end main_dll)"
    by (simp only: simp_thms)
  moreover from ident have "operator_neq \<lparr>m_curr = 16\<rparr> \<lparr>m_curr = 32\<rparr>"
    by simp
  ultimately show ?thesis
    using main_wf h2 by blast
qed

text \<open>
  C6: for a list whose nodes from \<^verbatim>\<open>head_\<close> are \<open>ns\<close>, the destructor ends without
  undefined behaviour (no node is read or released after its release). The released
  addresses are those of \<open>ns\<close>, in this order and each once; all of them were live
  before and none is afterwards, every other cell of the heap is as before, and
  \<^verbatim>\<open>head_\<close> is \<^verbatim>\<open>nullptr\<close>.
\<close>

theorem dtor_releases_each_node_once:
  assumes "chain h (m_head d) ns"
  shows "DLL_dtor (h, d) = Inr (h |` (- fst ` set ns), d\<lparr>m_head := nullptr\<rparr>, map fst ns)
      \<and> distinct (map fst ns)
      \<and> fst ` set ns \<subseteq> dom h"
proof -
  from assms have "dtor_loop h (m_head d) [] = Inr (h |` (- fst ` set ns), [] @ map fst ns)"
    by (rule dtor_loop_chain)
  then have "DLL_dtor (h, d) = Inr (h |` (- fst ` set ns), d\<lparr>m_head := nullptr\<rparr>, map fst ns)"
    by simp
  moreover from assms have "distinct (map fst ns)"
    by (rule chain_distinct)
  moreover have "fst ` set ns \<subseteq> dom h"
    using chain_allocated [OF assms] by auto
  ultimately show ?thesis by blast
qed

theorem dtor_releases_each_node_once_witness:
  "chain main_heap (m_head main_dll) main_nodes
   \<and> DLL_dtor (main_heap, main_dll)
       = Inr (Map.empty, \<lparr>m_head = nullptr, m_size = 6\<rparr>, [96, 80, 64, 48, 32, 16])
   \<and> distinct [96, 80, 64, 48, 32, 16 :: addr]
   \<and> {96, 80, 64, 48, 32, 16} \<subseteq> dom main_heap"
proof -
  have h1: "chain main_heap (m_head main_dll) main_nodes"
    using main_wf by (simp add: wf_DLL_def)
  have "main_heap |` (- fst ` set main_nodes) = Map.empty"
    by (auto simp: main_heap_def main_nodes_def restrict_map_def fun_eq_iff)
  with dtor_releases_each_node_once [OF h1] h1 show ?thesis
    by (simp add: main_nodes_def main_dll_def)
qed

text \<open>
  C8: for every iterator object, in every heap, \<^verbatim>\<open>operator+\<close> with offset 0 returns
  the reference it was called on and changes nothing.
\<close>

theorem plus_zero_identity:
  assumes "its this = Some c"
  shows "operator_plus h this 0 its = Inr (this, its) \<and> its this = Some c"
  using assms by (simp add: operator_plus_def plus_loop.simps [of h this 0 0])

theorem plus_zero_identity_witness:
  "[0 \<mapsto> \<lparr>m_curr = 64\<rparr>] (0 :: iref) = Some \<lparr>m_curr = 64\<rparr>
   \<and> operator_plus main_heap 0 0 [0 \<mapsto> \<lparr>m_curr = 64\<rparr>] = Inr (0, [0 \<mapsto> \<lparr>m_curr = 64\<rparr>])
   \<and> operator_plus Map.empty 0 0 [0 \<mapsto> \<lparr>m_curr = nullptr\<rparr>] = Inr (0, [0 \<mapsto> \<lparr>m_curr = nullptr\<rparr>])"
proof -
  have h1: "[0 \<mapsto> c] (0 :: iref) = Some c" for c :: DLLIterator
    by simp
  from plus_zero_identity [where its = "[0 \<mapsto> \<lparr>m_curr = 64\<rparr>]" and this = 0
      and h = main_heap, OF h1]
    plus_zero_identity [where its = "[0 \<mapsto> \<lparr>m_curr = nullptr\<rparr>]" and this = 0
      and h = Map.empty, OF h1]
  show ?thesis by simp
qed

end
